theory Spec2Isabelle
  imports Complex_Main
begin

section \<open>Python numbers: unbounded integers and binary64 floats\<close>

text \<open>
  The tax engine mixes Python's unbounded \<open>int\<close> with \<open>float\<close>. A finite float is kept
  as a pair of integers, mantissa and binary exponent, and stands for the rational
  \<open>mant * 2 ^ expo\<close>; \<open>Infinity\<close> is what a float operation yields on overflow. Every
  conversion below rounds the exact result once to binary64, to nearest with ties to the
  even mantissa, as CPython does for a float literal, for \<open>int * float\<close>, for true
  division of two ints and for float multiplication.
\<close>

datatype error = OverflowError | ZeroDivisionError | KeyError

datatype pyfloat = Finite (mant: int) (expo: int) | Infinity

primrec valof :: "pyfloat \<Rightarrow> rat" where
  "valof (Finite m e) = of_int m * 2 powi e"

text \<open>\<open>int.bit_length()\<close> of a non-negative integer.\<close>

function bit_length :: "int \<Rightarrow> nat" where
  "bit_length n = (if n \<le> 0 then 0 else Suc (bit_length (n div 2)))"
  by pat_completeness auto
termination
  by (relation "measure nat") auto

declare bit_length.simps [simp del]

text \<open>The quotient \<open>n / d\<close> (\<open>d > 0\<close>) rounded to the nearest integer, ties to even.\<close>

definition round_half_even :: "int \<Rightarrow> int \<Rightarrow> int" where
  "round_half_even n d =
     (let q = n div d; r = n mod d
      in if 2 * r < d \<or> (2 * r = d \<and> even q) then q else q + 1)"

text \<open>The integer \<open>l\<close> with \<open>2 ^ l \<le> n / d < 2 ^ (l + 1)\<close>, for positive \<open>n\<close> and \<open>d\<close>.\<close>

definition floor_log2 :: "int \<Rightarrow> int \<Rightarrow> int" where
  "floor_log2 n d =
     (let k = int (bit_length n) - int (bit_length d)
      in if (if 0 \<le> k then d * 2 ^ nat k \<le> n else d \<le> n * 2 ^ nat (- k))
         then k else k - 1)"

text \<open>
  The fraction \<open>n / d\<close> (\<open>d > 0\<close>) rounded to binary64: 53 significant bits, the exponent
  of the last bit no smaller than \<open>-1074\<close> (subnormal numbers), and \<open>Infinity\<close> when the
  rounded magnitude reaches \<open>2 ^ 1024\<close>.
\<close>

definition round_binary64 :: "int \<Rightarrow> int \<Rightarrow> pyfloat" where
  "round_binary64 n d =
     (if n = 0 then Finite 0 0
      else
        let a = \<bar>n\<bar>;
            e = max (floor_log2 a d - 52) (- 1074);
            m = (if 0 \<le> e then round_half_even a (d * 2 ^ nat e)
                 else round_half_even (a * 2 ^ nat (- e)) d)
        in if 0 \<le> e \<and> 2 ^ 1024 \<le> m * 2 ^ nat e then Infinity
           else Finite (sgn n * m) e)"

text \<open>A decimal float literal such as \<open>0.0865\<close>, given as \<open>865 / 10000\<close>.\<close>

definition float_literal :: "int \<Rightarrow> int \<Rightarrow> pyfloat" where
  "float_literal n d = round_binary64 n d"

text \<open>
  Every non-negative integer below this bound converts to a float; the bound itself is
  halfway between the largest float and \<open>2 ^ 1024\<close> and rounds up, out of range.
\<close>

definition int_float_limit :: int where
  "int_float_limit = 2 ^ 1024 - 2 ^ 970"

text \<open>\<open>float(i)\<close>: raises \<open>OverflowError\<close> when the integer is too large.\<close>

definition float_of_int :: "int \<Rightarrow> error + pyfloat" where
  "float_of_int i =
     (case round_binary64 i 1 of
        Infinity \<Rightarrow> Inl OverflowError
      | Finite m e \<Rightarrow> Inr (Finite m e))"

text \<open>\<open>x * y\<close> on floats: the exact product rounded once.\<close>

fun float_mul :: "pyfloat \<Rightarrow> pyfloat \<Rightarrow> pyfloat" where
  "float_mul (Finite m1 e1) (Finite m2 e2) =
     (let m = m1 * m2; e = e1 + e2
      in if 0 \<le> e then round_binary64 (m * 2 ^ nat e) 1
         else round_binary64 m (2 ^ nat (- e)))"
| "float_mul _ _ = Infinity"

text \<open>\<open>int(x)\<close> on a float: truncation toward zero; an infinite float raises.\<close>

fun py_int :: "pyfloat \<Rightarrow> error + int" where
  "py_int (Finite m e) =
     Inr (if 0 \<le> e then m * 2 ^ nat e else sgn m * (\<bar>m\<bar> div 2 ^ nat (- e)))"
| "py_int Infinity = Inl OverflowError"

text \<open>\<open>i * x\<close> with an int on the left: the int is converted to a float first.\<close>

definition int_mul_float :: "int \<Rightarrow> pyfloat \<Rightarrow> error + pyfloat" where
  "int_mul_float i x =
     (case float_of_int i of Inl err \<Rightarrow> Inl err | Inr y \<Rightarrow> Inr (float_mul y x))"

text \<open>\<open>a / b\<close> on two ints: the exact quotient rounded once to a float.\<close>

definition true_div :: "int \<Rightarrow> int \<Rightarrow> error + pyfloat" where
  "true_div a b =
     (if b = 0 then Inl ZeroDivisionError
      else case round_binary64 (a * sgn b) \<bar>b\<bar> of
             Infinity \<Rightarrow> Inl OverflowError
           | Finite m e \<Rightarrow> Inr (Finite m e))"

text \<open>A number that is either an int or a float, as \<open>effective_rate\<close> is.\<close>

datatype pynum = PyInt int | PyFloat pyfloat

fun numval :: "pynum \<Rightarrow> rat" where
  "numval (PyInt i) = of_int i"
| "numval (PyFloat x) = valof x"

section \<open>TaxEngine\<close>

record rates =
  CBS :: pyfloat
  IBS_ESTADO :: pyfloat
  IBS_MUNICIPIO :: pyfloat

definition DEFAULT_RATES :: rates where
  "DEFAULT_RATES =
     \<lparr>CBS = float_literal 865 10000, IBS_ESTADO = float_literal 1115 10000,
      IBS_MUNICIPIO = float_literal 470 10000\<rparr>"

definition SECTOR_RATES :: "(string \<times> rates) list" where
  "SECTOR_RATES =
     [(''PADRAO'', \<lparr>CBS = float_literal 865 10000, IBS_ESTADO = float_literal 1115 10000,
                    IBS_MUNICIPIO = float_literal 470 10000\<rparr>),
      (''SAUDE'', \<lparr>CBS = float_literal 433 10000, IBS_ESTADO = float_literal 558 10000,
                   IBS_MUNICIPIO = float_literal 235 10000\<rparr>),
      (''EDUCACAO'', \<lparr>CBS = float_literal 433 10000, IBS_ESTADO = float_literal 558 10000,
                      IBS_MUNICIPIO = float_literal 235 10000\<rparr>),
      (''TRANSPORTE_COLETIVO'', \<lparr>CBS = float_literal 433 10000,
                                 IBS_ESTADO = float_literal 558 10000,
                                 IBS_MUNICIPIO = float_literal 235 10000\<rparr>),
      (''CESTA_BASICA'', \<lparr>CBS = float_literal 0 10, IBS_ESTADO = float_literal 0 10,
                          IBS_MUNICIPIO = float_literal 0 10\<rparr>),
      (''COMBUSTIVEIS'', \<lparr>CBS = float_literal 865 10000, IBS_ESTADO = float_literal 1115 10000,
                          IBS_MUNICIPIO = float_literal 470 10000\<rparr>)]"

definition SIMPLIFIED_RATES_BPS :: "(string \<times> int) list" where
  "SIMPLIFIED_RATES_BPS =
     [(''PADRAO'', 2650), (''SAUDE'', 1325), (''EDUCACAO'', 1325),
      (''TRANSPORTE_COLETIVO'', 1325), (''CESTA_BASICA'', 0), (''COMBUSTIVEIS'', 2650)]"

text \<open>\<open>d[k]\<close> raises \<open>KeyError\<close> on a missing key; \<open>d.get(k, default)\<close> never raises.\<close>

definition dict_item :: "('k \<times> 'v) list \<Rightarrow> 'k \<Rightarrow> error + 'v" where
  "dict_item d k = (case map_of d k of None \<Rightarrow> Inl KeyError | Some v \<Rightarrow> Inr v)"

definition dict_get :: "('k \<times> 'v) list \<Rightarrow> 'k \<Rightarrow> 'v \<Rightarrow> 'v" where
  "dict_get d k dflt = (case map_of d k of None \<Rightarrow> dflt | Some v \<Rightarrow> v)"

text \<open>\<open>int(gross_amount_wei * rate)\<close> with a float rate.\<close>

definition int_of_product :: "int \<Rightarrow> pyfloat \<Rightarrow> error + int" where
  "int_of_product i x =
     (case int_mul_float i x of Inl err \<Rightarrow> Inl err | Inr y \<Rightarrow> py_int y)"

record standard_tax =
  gross_amount :: int
  cbs_amount :: int
  ibs_state_amount :: int
  ibs_city_amount :: int
  total_tax :: int
  credit_offset :: int
  net_tax :: int
  net_to_seller :: int
  effective_rate :: pynum
  sector :: string

text \<open>
  The keys of the returned dictionary are the record's fields; the local variables of the
  source that carry the same names are shortened here (\<open>cbs\<close> for \<open>cbs_amount\<close>,
  \<open>total\<close> for \<open>total_tax\<close>, \<open>sector_tag\<close> for the parameter \<open>sector\<close>, and so on).
\<close>

definition calculate_standard :: "int \<Rightarrow> string \<Rightarrow> int \<Rightarrow> error + standard_tax" where
  "calculate_standard gross_amount_wei sector_tag seller_credits_wei =
     (case dict_item SECTOR_RATES ''PADRAO'' of
        Inl err \<Rightarrow> Inl err
      | Inr padrao \<Rightarrow>
     let rates = dict_get SECTOR_RATES sector_tag padrao in
     case int_of_product gross_amount_wei (CBS rates) of
        Inl err \<Rightarrow> Inl err
      | Inr cbs \<Rightarrow>
     case int_of_product gross_amount_wei (IBS_ESTADO rates) of
        Inl err \<Rightarrow> Inl err
      | Inr ibs_state \<Rightarrow>
     case int_of_product gross_amount_wei (IBS_MUNICIPIO rates) of
        Inl err \<Rightarrow> Inl err
      | Inr ibs_city \<Rightarrow>
     let total = cbs + ibs_state + ibs_city;
         offset = min seller_credits_wei total;
         net = total - offset;
         to_seller = gross_amount_wei - net
     in case (if gross_amount_wei > 0
              then map_sum id PyFloat (true_div total gross_amount_wei)
              else Inr (PyInt 0)) of
        Inl err \<Rightarrow> Inl err
      | Inr rate \<Rightarrow>
          Inr \<lparr>gross_amount = gross_amount_wei,
               cbs_amount = cbs,
               ibs_state_amount = ibs_state,
               ibs_city_amount = ibs_city,
               total_tax = total,
               credit_offset = offset,
               net_tax = net,
               net_to_seller = to_seller,
               effective_rate = rate,
               sector = sector_tag\<rparr>)"

record simplified_tax =
  gross_amount :: int
  rate_bps :: int
  tax_amount :: int
  net_to_seller :: int
  effective_rate :: pynum
  sector :: string

definition calculate_simplified :: "int \<Rightarrow> string \<Rightarrow> error + simplified_tax" where
  "calculate_simplified gross_amount_wei sector_tag =
     (let bps = dict_get SIMPLIFIED_RATES_BPS sector_tag 2650 in
      case true_div (gross_amount_wei * bps) 10000 of
        Inl err \<Rightarrow> Inl err
      | Inr ratio \<Rightarrow>
      case py_int ratio of
        Inl err \<Rightarrow> Inl err
      | Inr tax \<Rightarrow>
      let to_seller = gross_amount_wei - tax
      in case true_div bps 10000 of
        Inl err \<Rightarrow> Inl err
      | Inr rate \<Rightarrow>
          Inr \<lparr>gross_amount = gross_amount_wei,
               rate_bps = bps,
               tax_amount = tax,
               net_to_seller = to_seller,
               effective_rate = PyFloat rate,
               sector = sector_tag\<rparr>)"

section \<open>The rate table as written, in exact decimals\<close>

text \<open>
  The same table with every rate as the exact decimal fraction of its literal, and the
  fall-back to the \<open>PADRAO\<close> row. The theorems compare the float computation with
  these.
\<close>

definition SECTOR_DECIMALS :: "(string \<times> rat \<times> rat \<times> rat) list" where
  "SECTOR_DECIMALS =
     [(''PADRAO'', 865 / 10000, 1115 / 10000, 470 / 10000),
      (''SAUDE'', 433 / 10000, 558 / 10000, 235 / 10000),
      (''EDUCACAO'', 433 / 10000, 558 / 10000, 235 / 10000),
      (''TRANSPORTE_COLETIVO'', 433 / 10000, 558 / 10000, 235 / 10000),
      (''CESTA_BASICA'', 0, 0, 0),
      (''COMBUSTIVEIS'', 865 / 10000, 1115 / 10000, 470 / 10000)]"

definition decimal_rates :: "string \<Rightarrow> rat \<times> rat \<times> rat" where
  "decimal_rates sector_tag =
     dict_get SECTOR_DECIMALS sector_tag (865 / 10000, 1115 / 10000, 470 / 10000)"

text \<open>
  A float rate that stands for the decimal \<open>q\<close>: finite, non-negative, within relative
  distance \<open>2 ^ -53\<close> of \<open>q\<close>, at most \<open>1/4\<close>, and at least \<open>1/64\<close> unless it is zero.
\<close>

fun close_to :: "pyfloat \<Rightarrow> rat \<Rightarrow> bool" where
  "close_to (Finite m e) q =
     (0 \<le> m \<and> \<bar>of_int m * 2 powi e - q\<bar> \<le> q / 2 ^ 53 \<and>
      (if m = 0 then q = 0 else 1 / 64 \<le> (of_int m :: rat) * 2 powi e))"
| "close_to Infinity q = False"

definition good_rates :: "rates \<Rightarrow> rat \<times> rat \<times> rat \<Rightarrow> bool" where
  "good_rates r q =
     (case q of (a, b, c) \<Rightarrow>
        close_to (CBS r) a \<and> close_to (IBS_ESTADO r) b \<and> close_to (IBS_MUNICIPIO r) c \<and>
        a + b + c \<le> 49 / 200)"

lemma bit_length_pos: "0 < n \<Longrightarrow> bit_length n = Suc (bit_length (n div 2))"
  by (subst bit_length.simps) simp

lemma bit_length_bounds:
  "0 < n \<Longrightarrow> 2 ^ (bit_length n - 1) \<le> n \<and> n < 2 ^ bit_length n"
proof (induction n rule: bit_length.induct)
  case (1 n)
  note bl = bit_length_pos [OF "1.prems"]
  show ?case
  proof (cases "n = 1")
    case True
    then show ?thesis
      by (simp add: bl) (simp add: bit_length.simps)
  next
    case False
    with "1.prems" have pos: "0 < n div 2" by simp
    from "1.IH" "1.prems" pos
    have ih: "2 ^ (bit_length (n div 2) - 1) \<le> n div 2" "n div 2 < 2 ^ bit_length (n div 2)"
      by simp_all
    obtain j where j: "bit_length (n div 2) = Suc j"
      using bit_length_pos [OF pos] by blast
    have "2 * (n div 2) \<le> n" "n < 2 * (n div 2) + 2" by simp_all
    with ih j bl show ?thesis by simp
  qed
qed

lemma bit_length_rat:
  fixes n :: int
  assumes "0 < n"
  obtains j where "bit_length n = Suc j" "(2::rat) ^ j \<le> of_int n" "(of_int n :: rat) < 2 * 2 ^ j"
proof -
  obtain j where j: "bit_length n = Suc j"
    using bit_length_pos [OF assms] by blast
  from bit_length_bounds [OF assms] j have "2 ^ j \<le> n" "n < 2 * 2 ^ j" by simp_all
  then have "(of_int (2 ^ j) :: rat) \<le> of_int n" "(of_int n :: rat) < of_int (2 * 2 ^ j)"
    by (simp_all only: of_int_le_iff of_int_less_iff)
  then have "(2::rat) ^ j \<le> of_int n" "(of_int n :: rat) < 2 * 2 ^ j" by simp_all
  with j show ?thesis by (rule that)
qed

lemma floor_log2_bounds:
  fixes n d :: int
  assumes n: "0 < n" and d: "0 < d"
  shows "(of_int d :: rat) * 2 powi (floor_log2 n d) \<le> of_int n"
    and "(of_int n :: rat) < of_int d * 2 powi (floor_log2 n d + 1)"
proof -
  obtain a where a: "bit_length n = Suc a" "(2::rat) ^ a \<le> of_int n" "(of_int n :: rat) < 2 * 2 ^ a"
    using bit_length_rat [OF n] by blast
  obtain b where b: "bit_length d = Suc b" "(2::rat) ^ b \<le> of_int d" "(of_int d :: rat) < 2 * 2 ^ b"
    using bit_length_rat [OF d] by blast
  define k where "k = int (bit_length n) - int (bit_length d)"
  have k: "k = int a - int b" by (simp add: k_def a b)
  have pk: "(2::rat) powi k = 2 ^ a / 2 ^ b"
    by (simp add: k power_int_diff)
  have pk1: "(2::rat) powi (k + 1) = 2 * 2 powi k" "(2::rat) powi (k - 1) = 2 powi k / 2"
    by (simp_all add: power_int_add power_int_diff)
  have pos: "(0::rat) < 2 ^ a" "(0::rat) < 2 ^ b" by simp_all
  have upper: "(of_int n :: rat) < of_int d * 2 powi (k + 1)"
  proof -
    have "(of_int n :: rat) < 2 * 2 ^ a" by (rule a)
    also have "\<dots> = 2 ^ b * (2 * 2 powi k)" by (simp add: pk)
    also have "\<dots> \<le> of_int d * (2 * 2 powi k)"
      by (rule mult_right_mono [OF b(2)]) simp
    finally show ?thesis by (simp add: pk1)
  qed
  have lower: "(of_int d :: rat) * 2 powi (k - 1) \<le> of_int n"
  proof -
    have "(of_int d :: rat) * 2 powi (k - 1) \<le> (2 * 2 ^ b) * 2 powi (k - 1)"
      by (rule mult_right_mono) (use b in simp_all)
    also have "\<dots> = 2 ^ a" by (simp add: pk1 pk)
    also have "\<dots> \<le> of_int n" by (rule a)
    finally show ?thesis .
  qed
  have test: "(if 0 \<le> k then d * 2 ^ nat k \<le> n else d \<le> n * 2 ^ nat (- k))
      \<longleftrightarrow> (of_int d :: rat) * 2 powi k \<le> of_int n"
  proof (cases "0 \<le> k")
    case True
    have "(of_int d :: rat) * 2 powi k = of_int (d * 2 ^ nat k)"
      using True by (simp add: power_int_def)
    then show ?thesis using True by (simp only: of_int_le_iff if_True)
  next
    case False
    have "(of_int d :: rat) * 2 powi k = of_int d / 2 ^ nat (- k)"
      using False by (simp add: power_int_def field_simps)
    moreover have "(of_int d :: rat) / 2 ^ nat (- k) \<le> of_int n \<longleftrightarrow>
        (of_int d :: rat) \<le> of_int (n * 2 ^ nat (- k))"
      by (simp add: field_simps)
    ultimately show ?thesis using False by (simp only: of_int_le_iff if_False)
  qed
  have fl: "floor_log2 n d = (if (of_int d :: rat) * 2 powi k \<le> of_int n then k else k - 1)"
    unfolding floor_log2_def k_def [symmetric] Let_def test ..
  show "(of_int d :: rat) * 2 powi (floor_log2 n d) \<le> of_int n"
    using lower by (simp add: fl)
  show "(of_int n :: rat) < of_int d * 2 powi (floor_log2 n d + 1)"
    using upper by (auto simp add: fl not_le)
qed

lemma round_half_even_bounds:
  assumes "0 < d"
  shows "2 * n - d \<le> 2 * d * round_half_even n d"
    and "2 * d * round_half_even n d \<le> 2 * n + d"
proof -
  define q where "q = n div d"
  define r where "r = n mod d"
  define m where "m = round_half_even n d"
  have n: "n = d * q + r" by (simp add: q_def r_def)
  have r0: "0 \<le> r" and r1: "r < d" using assms by (simp_all add: r_def)
  have m: "m = (if 2 * r < d \<or> (2 * r = d \<and> even q) then q else q + 1)"
    by (simp add: m_def round_half_even_def q_def r_def Let_def)
  have "2 * n - d \<le> 2 * d * m \<and> 2 * d * m \<le> 2 * n + d"
  proof (cases "2 * r < d \<or> (2 * r = d \<and> even q)")
    case True
    then have "m = q" by (simp add: m)
    with True r0 r1 show ?thesis by (auto simp: n algebra_simps)
  next
    case False
    then have "m = q + 1" by (simp add: m)
    with False r0 r1 show ?thesis by (auto simp: n algebra_simps)
  qed
  then show "2 * n - d \<le> 2 * d * round_half_even n d"
    and "2 * d * round_half_even n d \<le> 2 * n + d"
    by (simp_all add: m_def)
qed

lemma round_half_even_nonneg: "0 < d \<Longrightarrow> 0 \<le> n \<Longrightarrow> 0 \<le> round_half_even n d"
  by (auto simp: round_half_even_def Let_def pos_imp_zdiv_nonneg_iff intro: add_nonneg_nonneg)

lemma round_half_even_rat:
  fixes n d :: int
  assumes "0 < d"
  shows "\<bar>(of_int (round_half_even n d) :: rat) - of_int n / of_int d\<bar> \<le> 1 / 2"
proof -
  define m where "m = round_half_even n d"
  have "(of_int (2 * n - d) :: rat) \<le> of_int (2 * d * m)" "(of_int (2 * d * m) :: rat) \<le> of_int (2 * n + d)"
    using round_half_even_bounds [OF assms, of n] unfolding m_def
    by (simp_all only: of_int_le_iff)
  then have le: "2 * of_int n - of_int d \<le> 2 * (of_int d :: rat) * of_int m"
    "2 * (of_int d :: rat) * of_int m \<le> 2 * of_int n + of_int d"
    by simp_all
  have dpos: "(0::rat) < of_int d" using assms by simp
  have "(of_int m :: rat) - of_int n / of_int d \<le> 1 / 2"
    using le(2) dpos by (simp add: field_simps)
  moreover have "- (1 / 2) \<le> (of_int m :: rat) - of_int n / of_int d"
    using le(1) dpos by (simp add: field_simps)
  ultimately have "\<bar>(of_int m :: rat) - of_int n / of_int d\<bar> \<le> 1 / 2"
    by (intro abs_leI) linarith+
  then show ?thesis by (simp only: m_def)
qed

lemma scaled_round_error:
  fixes a d e :: int
  assumes d: "0 < d"
  defines "m \<equiv> (if 0 \<le> e then round_half_even a (d * 2 ^ nat e)
                   else round_half_even (a * 2 ^ nat (- e)) d)"
  shows "\<bar>(of_int m :: rat) * 2 powi e - of_int a / of_int d\<bar> \<le> 2 powi (e - 1)"
proof (cases "0 \<le> e")
  case True
  define j where "j = nat e"
  have e: "e = int j" using True by (simp add: j_def)
  have m: "m = round_half_even a (d * 2 ^ j)" using True by (simp add: m_def j_def)
  have "0 < d * 2 ^ j" using d by simp
  from round_half_even_rat [OF this, of a]
  have "\<bar>(of_int m :: rat) - of_int a / (of_int d * 2 ^ j)\<bar> \<le> 1 / 2"
    by (simp add: m)
  then have "\<bar>(of_int m :: rat) - of_int a / (of_int d * 2 ^ j)\<bar> * 2 ^ j \<le> 1 / 2 * 2 ^ j"
    by (rule mult_right_mono) simp
  moreover have "\<bar>(of_int m :: rat) - of_int a / (of_int d * 2 ^ j)\<bar> * 2 ^ j
      = \<bar>of_int m * 2 ^ j - of_int a / of_int d\<bar>"
  proof -
    have "\<bar>(of_int m :: rat) - of_int a / (of_int d * 2 ^ j)\<bar> * \<bar>2 ^ j\<bar>
      = \<bar>(of_int m - of_int a / (of_int d * 2 ^ j)) * 2 ^ j\<bar>"
      by (simp only: abs_mult)
    also have "(of_int m - of_int a / (of_int d * 2 ^ j)) * 2 ^ j
      = (of_int m :: rat) * 2 ^ j - of_int a / of_int d"
      by (simp add: field_simps)
    finally show ?thesis by simp
  qed
  moreover have "(2::rat) powi (e - 1) = 1 / 2 * 2 ^ j"
    by (simp add: e power_int_diff)
  ultimately show ?thesis by (simp add: e)
next
  case False
  define j where "j = nat (- e)"
  have e: "e = - int j" using False by (simp add: j_def)
  have m: "m = round_half_even (a * 2 ^ j) d" using False by (simp add: m_def j_def)
  from round_half_even_rat [OF d, of "a * 2 ^ j"]
  have "\<bar>(of_int m :: rat) - of_int a * 2 ^ j / of_int d\<bar> \<le> 1 / 2"
    by (simp add: m)
  then have "\<bar>(of_int m :: rat) - of_int a * 2 ^ j / of_int d\<bar> / 2 ^ j \<le> 1 / 2 / 2 ^ j"
    by (rule divide_right_mono) simp
  moreover have "\<bar>(of_int m :: rat) - of_int a * 2 ^ j / of_int d\<bar> / 2 ^ j
      = \<bar>of_int m / 2 ^ j - of_int a / of_int d\<bar>"
  proof -
    have "\<bar>(of_int m :: rat) - of_int a * 2 ^ j / of_int d\<bar> / \<bar>2 ^ j\<bar>
      = \<bar>(of_int m - of_int a * 2 ^ j / of_int d) / 2 ^ j\<bar>"
      by (simp only: abs_divide)
    also have "(of_int m - of_int a * 2 ^ j / of_int d) / 2 ^ j
      = (of_int m :: rat) / 2 ^ j - of_int a / of_int d"
      by (simp add: field_simps)
    finally show ?thesis by simp
  qed
  moreover have "(2::rat) powi (e - 1) = 1 / 2 / 2 ^ j"
    by (simp add: e power_int_diff power_int_minus field_simps)
  moreover have "(of_int m :: rat) * 2 powi e = of_int m / 2 ^ j"
    by (simp add: e power_int_minus field_simps)
  ultimately show ?thesis by simp
qed

lemma scaled_round_nonneg:
  fixes a d e :: int
  assumes "0 < d" "0 \<le> a"
  shows "0 \<le> (if 0 \<le> e then round_half_even a (d * 2 ^ nat e)
               else round_half_even (a * 2 ^ nat (- e)) d)"
  using assms by (auto intro!: round_half_even_nonneg)

text \<open>What rounding does to a positive fraction.\<close>

lemma round_binary64_pos:
  fixes n d :: int
  assumes n: "0 < n" and d: "0 < d"
  obtains m e where
    "e = max (floor_log2 n d - 52) (- 1074)"
    "0 \<le> m"
    "m \<le> 2 ^ 53"
    "\<bar>(of_int m :: rat) * 2 powi e - of_int n / of_int d\<bar> \<le> 2 powi (e - 1)"
    "round_binary64 n d =
       (if (2::rat) ^ 1024 \<le> of_int m * 2 powi e then Infinity else Finite m e)"
proof -
  define l where "l = floor_log2 n d"
  define e where "e = max (l - 52) (- 1074)"
  define m where "m = (if 0 \<le> e then round_half_even n (d * 2 ^ nat e)
                       else round_half_even (n * 2 ^ nat (- e)) d)"
  define x :: rat where "x = of_int n / of_int d"
  have dpos: "(0::rat) < of_int d" using d by simp
  have xpos: "0 < x" using n d by (simp add: x_def)
  have m0: "0 \<le> m" unfolding m_def using d n by (intro scaled_round_nonneg) simp_all
  have err: "\<bar>(of_int m :: rat) * 2 powi e - x\<bar> \<le> 2 powi (e - 1)"
    unfolding m_def x_def by (rule scaled_round_error [OF d])
  have pe: "(0::rat) < 2 powi e" by simp
  have half: "(2::rat) powi (e - 1) = 2 powi e / 2" by (simp add: power_int_diff)
  have xlt: "x < 2 powi (l + 1)"
    using floor_log2_bounds(2) [OF n d] dpos by (simp add: x_def l_def field_simps)
  have "(2::rat) powi (l + 1) \<le> 2 powi (e + 53)"
    by (rule power_int_increasing) (simp_all add: e_def)
  also have "\<dots> = 2 powi e * 2 ^ 53" by (simp add: power_int_add)
  finally have "x < 2 powi e * 2 ^ 53" using xlt by simp
  moreover have "of_int m * 2 powi e \<le> x + 2 powi e / 2"
    using abs_le_D1 [OF err] unfolding half by linarith
  moreover have "((2::rat) ^ 53 + 1) * 2 powi e = 2 powi e * 2 ^ 53 + 2 powi e"
    by (simp only: distrib_right mult_1_left mult.commute [of "2 ^ 53"])
  ultimately have "(of_int m :: rat) * 2 powi e < (2 ^ 53 + 1) * 2 powi e"
    using pe by linarith
  then have "(of_int m :: rat) < 2 ^ 53 + 1"
    using pe by (simp only: mult_less_cancel_right_pos)
  then have "(of_int m :: rat) < of_int (2 ^ 53 + 1)"
    by simp
  then have "m < 2 ^ 53 + 1" by (simp only: of_int_less_iff)
  then have m53: "m \<le> 2 ^ 53" by simp
  have ovf: "(0 \<le> e \<and> 2 ^ 1024 \<le> m * 2 ^ nat e) \<longleftrightarrow> (2::rat) ^ 1024 \<le> of_int m * 2 powi e"
  proof (cases "0 \<le> e")
    case True
    have "(of_int m :: rat) * 2 powi e = of_int (m * 2 ^ nat e)"
      using True by (simp add: power_int_def)
    moreover have "(2::rat) ^ 1024 = of_int (2 ^ 1024)" by simp
    ultimately show ?thesis using True by (simp only: of_int_le_iff simp_thms)
  next
    case False
    then have "(2::rat) powi e \<le> 2 powi 0" by (intro power_int_increasing) simp_all
    then have "(of_int m :: rat) * 2 powi e \<le> of_int m * 1"
      using m0 by (intro mult_left_mono) simp_all
    also have "(of_int m :: rat) \<le> of_int (2 ^ 53)" using m53 by (simp only: of_int_le_iff)
    finally have "(of_int m :: rat) * 2 powi e \<le> 2 ^ 53" by simp
    moreover have "(2::rat) ^ 53 < 2 ^ 1024" by (rule power_strict_increasing) simp_all
    ultimately show ?thesis using False by simp
  qed
  have "round_binary64 n d =
       (if 0 \<le> e \<and> 2 ^ 1024 \<le> m * 2 ^ nat e then Infinity else Finite m e)"
    using n by (simp add: round_binary64_def Let_def e_def l_def m_def)
  then have rb: "round_binary64 n d =
       (if (2::rat) ^ 1024 \<le> of_int m * 2 powi e then Infinity else Finite m e)"
    by (simp only: ovf)
  show ?thesis
    by (rule that [of e m]) (use m0 m53 err rb in \<open>simp_all add: e_def l_def x_def\<close>)
qed

lemma round_binary64_cases:
  fixes n d :: int
  assumes n: "0 \<le> n" and d: "0 < d"
  obtains m e where
    "0 \<le> m"
    "(of_int m :: rat) * 2 powi e \<le> 2 * (of_int n / of_int d)"
    "2 powi (- 1022) \<le> (of_int n :: rat) / of_int d \<longrightarrow>
       \<bar>(of_int m :: rat) * 2 powi e - of_int n / of_int d\<bar> \<le> of_int n / of_int d / 2 ^ 53"
    "(of_int n :: rat) / of_int d < 2 ^ 1024 - 2 ^ 970 \<longrightarrow> of_int m * 2 powi e < (2::rat) ^ 1024"
    "round_binary64 n d =
       (if (2::rat) ^ 1024 \<le> of_int m * 2 powi e then Infinity else Finite m e)"
proof (cases "n = 0")
  case True
  show ?thesis
    by (rule that [of 0 0]) (simp_all add: True round_binary64_def)
next
  case False
  with n have npos: "0 < n" by simp
  define x :: rat where "x = of_int n / of_int d"
  define l where "l = floor_log2 n d"
  have dpos: "(0::rat) < of_int d" using d by simp
  have xpos: "0 < x" using npos d by (simp add: x_def)
  obtain m e where e: "e = max (l - 52) (- 1074)" and m0: "0 \<le> m"
    and err: "\<bar>(of_int m :: rat) * 2 powi e - x\<bar> \<le> 2 powi (e - 1)"
    and rb: "round_binary64 n d =
       (if (2::rat) ^ 1024 \<le> of_int m * 2 powi e then Infinity else Finite m e)"
    using round_binary64_pos [OF npos d] unfolding l_def x_def by metis
  define p :: rat where "p = 2 powi e"
  define V :: rat where "V = of_int m * p"
  have ppos: "0 < p" by (simp add: p_def)
  have half: "(2::rat) powi (e - 1) = p / 2" by (simp add: p_def power_int_diff)
  have up: "V \<le> x + p / 2" and down: "x \<le> V + p / 2"
    using abs_le_D1 [OF err] abs_le_D2 [OF err] unfolding half V_def p_def by linarith+
  have lo: "2 powi l \<le> x"
    using floor_log2_bounds(1) [OF npos d] dpos by (simp add: x_def l_def field_simps)
  have hi: "x < 2 powi (l + 1)"
    using floor_log2_bounds(2) [OF npos d] dpos by (simp add: x_def l_def field_simps)
  have fin: "x < 2 ^ 1024 - 2 ^ 970 \<longrightarrow> V < 2 ^ 1024"
  proof
    assume x1024: "x < 2 ^ 1024 - 2 ^ 970"
    have l1023: "l \<le> 1023"
    proof (rule ccontr)
      assume "\<not> l \<le> 1023"
      then have "(2::rat) powi 1024 \<le> 2 powi l" by (intro power_int_increasing) simp_all
      with lo have "(2::rat) powi 1024 \<le> x" by simp
      moreover have "(2::rat) powi 1024 = 2 ^ 1024" by (simp add: power_int_def)
      moreover have "(0::rat) < 2 ^ 970" by simp
      ultimately show False using x1024 by linarith
    qed
    have "p \<le> 2 powi 971" unfolding p_def
      by (rule power_int_increasing) (use l1023 in \<open>simp_all add: e\<close>)
    moreover have "(2::rat) powi 971 = 2 * 2 ^ 970" by (simp add: power_int_def)
    ultimately show "V < 2 ^ 1024" using up x1024 by linarith
  qed
  have crude: "V \<le> 2 * x"
  proof (cases "m = 0")
    case True
    then show ?thesis using xpos by (simp add: V_def)
  next
    case False
    with m0 have "1 \<le> m" by simp
    then have "(1::rat) \<le> of_int m" by simp
    then have "1 * p \<le> of_int m * p" using ppos by (intro mult_right_mono) simp_all
    then have "p \<le> V" by (simp add: V_def)
    with up down show ?thesis by linarith
  qed
  have rel: "2 powi (- 1022) \<le> x \<longrightarrow> \<bar>V - x\<bar> \<le> x / 2 ^ 53"
  proof
    assume big: "2 powi (- 1022) \<le> x"
    have "- 1022 \<le> l"
    proof (rule ccontr)
      assume "\<not> - 1022 \<le> l"
      then have "(2::rat) powi (l + 1) \<le> 2 powi (- 1022)"
        by (intro power_int_increasing) simp_all
      with hi big show False by linarith
    qed
    then have el: "e = l - 52" by (simp add: e)
    have "p = 2 powi l / 2 ^ 52"
      unfolding p_def el by (simp add: power_int_diff)
    then have "p / 2 = 2 powi l / 2 ^ 53" by simp
    also have "\<dots> \<le> x / 2 ^ 53" using lo by (intro divide_right_mono) simp_all
    finally have "p / 2 \<le> x / 2 ^ 53" .
    with up down show "\<bar>V - x\<bar> \<le> x / 2 ^ 53"
      by (intro abs_leI) linarith+
  qed
  show ?thesis
    by (rule that [of m e])
      (use m0 crude rel fin rb in \<open>simp_all only: V_def p_def x_def\<close>)
qed

text \<open>A fraction below the overflow threshold rounds to a finite float.\<close>

lemma round_binary64_finite:
  fixes n d :: int
  assumes "0 \<le> n" "0 < d" "(of_int n :: rat) / of_int d < 2 ^ 1024 - 2 ^ 970"
  obtains m e where "round_binary64 n d = Finite m e"
proof -
  obtain m e where "(of_int n :: rat) / of_int d < 2 ^ 1024 - 2 ^ 970 \<longrightarrow>
      of_int m * 2 powi e < (2::rat) ^ 1024"
    and "round_binary64 n d =
       (if (2::rat) ^ 1024 \<le> of_int m * 2 powi e then Infinity else Finite m e)"
    using round_binary64_cases [OF assms(1,2)] by metis
  with assms(3) have "round_binary64 n d = Finite m e" by (simp add: not_le)
  then show ?thesis by (rule that)
qed

text \<open>A finite result is non-negative, at most twice the fraction, and within relative
  distance \<open>2 ^ -53\<close> of it unless the fraction is in the subnormal range.\<close>

lemma round_binary64_props:
  fixes n d :: int
  assumes "0 \<le> n" "0 < d" and r: "round_binary64 n d = Finite m e"
  shows "0 \<le> m"
    and "valof (Finite m e) \<le> 2 * (of_int n / of_int d)"
    and "2 powi (- 1022) \<le> (of_int n :: rat) / of_int d \<longrightarrow>
       \<bar>valof (Finite m e) - of_int n / of_int d\<bar> \<le> of_int n / of_int d / 2 ^ 53"
proof -
  obtain m' e' where p: "0 \<le> m'"
    "(of_int m' :: rat) * 2 powi e' \<le> 2 * (of_int n / of_int d)"
    "2 powi (- 1022) \<le> (of_int n :: rat) / of_int d \<longrightarrow>
       \<bar>(of_int m' :: rat) * 2 powi e' - of_int n / of_int d\<bar> \<le> of_int n / of_int d / 2 ^ 53"
    and rb: "round_binary64 n d =
       (if (2::rat) ^ 1024 \<le> of_int m' * 2 powi e' then Infinity else Finite m' e')"
    using round_binary64_cases [OF assms(1,2)] by metis
  from r rb have "m' = m" "e' = e" by (simp_all split: if_splits)
  with p show "0 \<le> m"
    and "valof (Finite m e) \<le> 2 * (of_int n / of_int d)"
    and "2 powi (- 1022) \<le> (of_int n :: rat) / of_int d \<longrightarrow>
       \<bar>valof (Finite m e) - of_int n / of_int d\<bar> \<le> of_int n / of_int d / 2 ^ 53"
    by (simp_all only: valof.simps)
qed

lemma float_literal_865: "float_literal 865 10000 = Finite 6232981884280766 (- 56)"
  by code_simp

lemma float_literal_1115: "float_literal 1115 10000 = Finite 8034421735228965 (- 56)"
  by code_simp

lemma float_literal_470: "float_literal 470 10000 = Finite 6773413839565226 (- 57)"
  by code_simp

lemma float_literal_433: "float_literal 433 10000 = Finite 6240187643684559 (- 57)"
  by code_simp

lemma float_literal_558: "float_literal 558 10000 = Finite 8041627494632758 (- 57)"
  by code_simp

lemma float_literal_235: "float_literal 235 10000 = Finite 6773413839565226 (- 58)"
  by code_simp

lemma float_literal_0: "float_literal 0 10 = Finite 0 0"
  by (simp add: float_literal_def round_binary64_def)

lemma float_of_int_huge: "float_of_int (2 ^ 1024) = Inl OverflowError"
  by code_simp

lemma powi_nonneg: "0 \<le> e \<Longrightarrow> (2::rat) powi e = 2 ^ nat e"
  by (simp add: power_int_def)

lemma powi_neg: "e < 0 \<Longrightarrow> (2::rat) powi e = 1 / 2 ^ nat (- e)"
  by (simp add: power_int_def field_simps)

lemma py_int_nonneg:
  assumes "0 \<le> m"
  obtains i where "py_int (Finite m e) = Inr i" "0 \<le> i"
    "of_int i \<le> valof (Finite m e)" "valof (Finite m e) < of_int i + 1"
proof (cases "0 \<le> e")
  case True
  define i where "i = m * 2 ^ nat e"
  have v: "valof (Finite m e) = of_int i"
    by (simp add: powi_nonneg [OF True] i_def)
  have p: "py_int (Finite m e) = Inr i" using True by (simp add: i_def)
  have z: "0 \<le> i" using assms by (simp add: i_def)
  show ?thesis
  proof (rule that [of i])
    show "py_int (Finite m e) = Inr i" by (rule p)
    show "0 \<le> i" by (rule z)
    show "of_int i \<le> valof (Finite m e)" unfolding v by simp
    show "valof (Finite m e) < of_int i + 1" unfolding v by simp
  qed
next
  case False
  define j where "j = nat (- e)"
  define i where "i = m div 2 ^ j"
  have "sgn m * (\<bar>m\<bar> div 2 ^ j) = i"
    using assms by (cases "m = 0") (simp_all add: i_def)
  then have pi: "py_int (Finite m e) = Inr i" using False by (simp add: j_def)
  have v: "valof (Finite m e) = of_int m / of_int (2 ^ j)"
    using False by (simp add: powi_neg j_def)
  have fl: "\<lfloor>(of_int m :: rat) / of_int (2 ^ j)\<rfloor> = i"
    unfolding i_def by (rule floor_divide_of_int_eq)
  have "of_int i \<le> valof (Finite m e)" "valof (Finite m e) < of_int i + 1"
    unfolding v fl [symmetric] by linarith+
  moreover have "0 \<le> i" using assms by (simp add: i_def pos_imp_zdiv_nonneg_iff)
  ultimately show ?thesis using pi by (intro that [of i])
qed

lemma float_mul_round:
  obtains N D where "0 < D"
    "float_mul (Finite m1 e1) (Finite m2 e2) = round_binary64 N D"
    "(of_int N :: rat) / of_int D = valof (Finite m1 e1) * valof (Finite m2 e2)"
    "0 \<le> m1 \<and> 0 \<le> m2 \<longrightarrow> 0 \<le> N"
proof -
  have split: "(2::rat) powi (e1 + e2) = 2 powi e1 * 2 powi e2"
    by (simp add: power_int_add)
  have prod: "valof (Finite m1 e1) * valof (Finite m2 e2)
      = of_int m1 * of_int m2 * 2 powi (e1 + e2)"
    by (simp add: split)
  show ?thesis
  proof (cases "0 \<le> e1 + e2")
    case True
    have "(of_int (m1 * m2 * 2 ^ nat (e1 + e2)) :: rat) / of_int 1
        = of_int m1 * of_int m2 * 2 powi (e1 + e2)"
      by (simp add: powi_nonneg [OF True])
    then show ?thesis
      using True unfolding prod [symmetric]
      by (intro that [of 1 "m1 * m2 * 2 ^ nat (e1 + e2)"]) (simp_all add: Let_def)
  next
    case False
    then have neg: "e1 + e2 < 0" by simp
    have "(of_int (m1 * m2) :: rat) / of_int (2 ^ nat (- (e1 + e2)))
        = of_int m1 * of_int m2 * 2 powi (e1 + e2)"
      by (simp add: powi_neg [OF neg])
    then show ?thesis
      using False unfolding prod [symmetric]
      by (intro that [of "2 ^ nat (- (e1 + e2))" "m1 * m2"]) (simp_all add: Let_def)
  qed
qed

lemma float_of_int_Inr:
  assumes "float_of_int g = Inr f"
  obtains m e where "f = Finite m e" "round_binary64 g 1 = Finite m e"
proof (cases "round_binary64 g 1")
  case (Finite m e)
  with assms have "f = Finite m e" by (simp add: float_of_int_def)
  then show ?thesis using Finite by (rule that)
next
  case Infinity
  with assms show ?thesis by (simp add: float_of_int_def)
qed

lemma float_of_int_finite:
  assumes g: "0 \<le> g" and bound: "(of_int g :: rat) < 2 ^ 1024 - 2 ^ 970"
  obtains m e where "float_of_int g = Inr (Finite m e)"
proof -
  have b: "(of_int g :: rat) / of_int 1 < 2 ^ 1024 - 2 ^ 970" using bound by simp
  obtain m e where "round_binary64 g 1 = Finite m e"
    using round_binary64_finite [OF g _ b] by (metis zero_less_one)
  then have "float_of_int g = Inr (Finite m e)" by (simp add: float_of_int_def)
  then show ?thesis by (rule that)
qed

lemma float_of_int_props:
  assumes g: "0 \<le> g" and r: "float_of_int g = Inr (Finite m e)"
  shows "0 \<le> m"
    and "valof (Finite m e) \<le> 2 * of_int g"
    and "1 \<le> g \<longrightarrow> \<bar>valof (Finite m e) - of_int g\<bar> \<le> of_int g / 2 ^ 53"
proof -
  from r have rb: "round_binary64 g 1 = Finite m e"
    by (auto elim: float_of_int_Inr)
  note p = round_binary64_props [OF g zero_less_one rb]
  show "0 \<le> m" by (rule p)
  show "valof (Finite m e) \<le> 2 * of_int g" using p(2) by simp
  have small: "(2::rat) powi (- 1022) \<le> 1"
    using power_int_increasing [of "- 1022" 0 "2::rat"] by simp
  show "1 \<le> g \<longrightarrow> \<bar>valof (Finite m e) - of_int g\<bar> \<le> of_int g / 2 ^ 53"
  proof
    assume "1 \<le> g"
    then have "(1::rat) \<le> of_int g" by simp
    with small have "2 powi (- 1022) \<le> (of_int g :: rat) / of_int 1" by simp
    with p(3) show "\<bar>valof (Finite m e) - of_int g\<bar> \<le> of_int g / 2 ^ 53" by simp
  qed
qed

lemma int_of_product_Inr:
  assumes "int_of_product g r = Inr i"
  obtains f where "float_of_int g = Inr f" "py_int (float_mul f r) = Inr i"
  using assms unfolding int_of_product_def int_mul_float_def
  by (auto split: sum.splits)

lemma py_int_Inr:
  assumes "py_int f = Inr i"
  obtains m e where "f = Finite m e"
  using assms by (cases f) auto

text \<open>\<open>int(g * rate)\<close> for a non-negative amount and a non-negative rate.\<close>

lemma int_of_product_props:
  assumes g: "0 \<le> g" and mr: "0 \<le> mr"
    and res: "int_of_product g (Finite mr er) = Inr i"
  shows "0 \<le> i"
    and "of_int i \<le> 4 * of_int g * valof (Finite mr er)"
    and "1 \<le> g \<and> 1 / 64 \<le> valof (Finite mr er) \<longrightarrow>
       of_int g * valof (Finite mr er) * (1 - 1 / 2 ^ 53) ^ 2 < of_int i + 1 \<and>
       of_int i \<le> of_int g * valof (Finite mr er) * (1 + 1 / 2 ^ 53) ^ 2"
proof -
  define a :: rat where "a = of_int g"
  define R where "R = valof (Finite mr er)"
  define u :: rat where "u = 1 / 2 ^ 53"
  have a0: "0 \<le> a" using g by (simp add: a_def)
  have R0: "0 \<le> R" using mr by (simp add: R_def)
  have u0: "0 \<le> u" "u \<le> 1 / 2" by (simp_all add: u_def)
  obtain f where ff: "float_of_int g = Inr f" and pf: "py_int (float_mul f (Finite mr er)) = Inr i"
    using res by (rule int_of_product_Inr)
  obtain mg eg where f: "f = Finite mg eg"
    using ff by (auto elim: float_of_int_Inr)
  note gp = float_of_int_props [OF g ff [unfolded f]]
  define G where "G = valof (Finite mg eg)"
  have mg: "0 \<le> mg" by (rule gp)
  have G0: "0 \<le> G" using mg by (simp add: G_def)
  have gcrude: "G \<le> 2 * a" using gp(2) by (simp add: G_def a_def)
  have grel: "1 \<le> g \<longrightarrow> \<bar>G - a\<bar> \<le> a * u" using gp(3) by (simp add: G_def a_def u_def)
  obtain N D where D: "0 < D"
    and fm: "float_mul (Finite mg eg) (Finite mr er) = round_binary64 N D"
    and ND: "(of_int N :: rat) / of_int D = G * R"
    and N0: "0 \<le> N"
    using float_mul_round [of mg eg mr er] mg mr unfolding G_def R_def by metis
  obtain mp ep where rp: "round_binary64 N D = Finite mp ep"
    using pf unfolding f fm by (rule py_int_Inr)
  note pp = round_binary64_props [OF N0 D rp, unfolded ND]
  define P where "P = valof (Finite mp ep)"
  have mp: "0 \<le> mp" by (rule pp)
  have pcrude: "P \<le> 2 * (G * R)" using pp(2) by (simp add: P_def)
  have prel: "2 powi (- 1022) \<le> G * R \<longrightarrow> \<bar>P - G * R\<bar> \<le> G * R * u"
    using pp(3) by (simp add: P_def u_def)
  obtain i' where pi: "py_int (Finite mp ep) = Inr i'" and i0: "0 \<le> i'"
    and ile: "of_int i' \<le> P" and ilt: "P < of_int i' + 1"
    using py_int_nonneg [OF mp, of ep] unfolding P_def by metis
  from pf have "i' = i" unfolding f fm rp pi by simp
  note i0 = i0 [unfolded this] and ile = ile [unfolded this] and ilt = ilt [unfolded this]
  show "0 \<le> i" by (rule i0)
  have crude: "of_int i \<le> 4 * a * R"
  proof -
    have "G * R \<le> (2 * a) * R" using gcrude R0 by (intro mult_right_mono)
    with pcrude ile show ?thesis by simp
  qed
  then show "of_int i \<le> 4 * of_int g * valof (Finite mr er)"
    by (simp only: a_def R_def)
  have precise: "1 \<le> g \<and> 1 / 64 \<le> R \<longrightarrow>
       a * R * (1 - u) ^ 2 < of_int i + 1 \<and> of_int i \<le> a * R * (1 + u) ^ 2"
  proof
    assume h: "1 \<le> g \<and> 1 / 64 \<le> R"
    then have a1: "1 \<le> a" by (simp add: a_def)
    from h grel have "\<bar>G - a\<bar> \<le> a * u" by simp
    then have Gup: "G \<le> a * (1 + u)" and Glo: "a * (1 - u) \<le> G"
      by (simp_all add: abs_le_iff algebra_simps)
    have "1 * (1 / 2) \<le> a * (1 - u)" using a1 u0 by (intro mult_mono) simp_all
    with Glo have Ghalf: "1 / 2 \<le> G" by simp
    have "(1 / 2) * (1 / 64) \<le> G * R" using Ghalf h by (intro mult_mono) simp_all
    moreover have "(2::rat) powi (- 1022) \<le> 2 powi (- 7)"
      by (rule power_int_increasing) simp_all
    moreover have "(2::rat) powi (- 7) = 1 / 128" by (simp add: power_int_minus)
    ultimately have "2 powi (- 1022) \<le> G * R" by simp
    with prel have "\<bar>P - G * R\<bar> \<le> G * R * u" by simp
    then have Pup: "P \<le> G * R * (1 + u)" and Plo: "G * R * (1 - u) \<le> P"
      by (simp_all add: abs_le_iff algebra_simps)
    have "G * R * (1 + u) \<le> (a * (1 + u)) * R * (1 + u)"
      using Gup R0 u0 by (intro mult_right_mono) simp_all
    with Pup ile have up: "of_int i \<le> a * R * (1 + u) ^ 2"
      by (simp add: power2_eq_square algebra_simps)
    have "(a * (1 - u)) * R * (1 - u) \<le> G * R * (1 - u)"
      using Glo R0 u0 by (intro mult_right_mono) simp_all
    with Plo ilt have lo: "a * R * (1 - u) ^ 2 < of_int i + 1"
      by (simp add: power2_eq_square algebra_simps)
    from lo up show "a * R * (1 - u) ^ 2 < of_int i + 1 \<and> of_int i \<le> a * R * (1 + u) ^ 2" ..
  qed
  then show "1 \<le> g \<and> 1 / 64 \<le> valof (Finite mr er) \<longrightarrow>
       of_int g * valof (Finite mr er) * (1 - 1 / 2 ^ 53) ^ 2 < of_int i + 1 \<and>
       of_int i \<le> of_int g * valof (Finite mr er) * (1 + 1 / 2 ^ 53) ^ 2"
    by (simp only: a_def R_def u_def)
qed

lemma int_of_product_finite:
  assumes g: "0 \<le> g" and bound: "(of_int g :: rat) < 2 ^ 1024 - 2 ^ 970"
    and mr: "0 \<le> mr" and quarter: "valof (Finite mr er) \<le> 1 / 4"
  obtains i where "int_of_product g (Finite mr er) = Inr i"
proof -
  define a :: rat where "a = of_int g"
  define R where "R = valof (Finite mr er)"
  have a0: "0 \<le> a" using g by (simp add: a_def)
  have R0: "0 \<le> R" using mr by (simp add: R_def)
  obtain mg eg where fg: "float_of_int g = Inr (Finite mg eg)"
    using float_of_int_finite [OF g bound] by blast
  note gp = float_of_int_props [OF g fg]
  define G where "G = valof (Finite mg eg)"
  have mg: "0 \<le> mg" by (rule gp)
  have G0: "0 \<le> G" using mg by (simp add: G_def)
  have gcrude: "G \<le> 2 * a" using gp(2) by (simp add: G_def a_def)
  obtain N D where D: "0 < D"
    and fm: "float_mul (Finite mg eg) (Finite mr er) = round_binary64 N D"
    and ND: "(of_int N :: rat) / of_int D = G * R"
    and N0: "0 \<le> N"
    using float_mul_round [of mg eg mr er] mg mr unfolding G_def R_def by metis
  have "G * R \<le> (2 * a) * (1 / 4)"
    using gcrude quarter G0 R0 a0 unfolding R_def [symmetric]
    by (intro mult_mono) simp_all
  then have "G * R \<le> a" using a0 by simp
  with bound have pb: "(of_int N :: rat) / of_int D < 2 ^ 1024 - 2 ^ 970"
    unfolding ND a_def by linarith
  obtain mp ep where rp: "round_binary64 N D = Finite mp ep"
    using round_binary64_finite [OF N0 D pb] by blast
  have "int_of_product g (Finite mr er) = py_int (Finite mp ep)"
    by (simp only: int_of_product_def int_mul_float_def fg fm rp sum.case)
  then show ?thesis by (intro that [of "if 0 \<le> ep then mp * 2 ^ nat ep
      else sgn mp * (\<bar>mp\<bar> div 2 ^ nat (- ep))"]) simp
qed

text \<open>True division of a non-negative numerator by a positive denominator.\<close>

lemma true_div_finite:
  assumes "0 \<le> a" "0 < b" "(of_int a :: rat) / of_int b < 2 ^ 1024 - 2 ^ 970"
  obtains m e where "true_div a b = Inr (Finite m e)"
proof -
  obtain m e where "round_binary64 a b = Finite m e"
    using round_binary64_finite [OF assms] by blast
  then have "true_div a b = Inr (Finite m e)"
    using assms(2) by (simp add: true_div_def)
  then show ?thesis by (rule that)
qed

lemma true_div_props:
  assumes "0 \<le> a" "0 < b" and r: "true_div a b = Inr (Finite m e)"
  shows "0 \<le> m"
    and "valof (Finite m e) \<le> 2 * (of_int a / of_int b)"
    and "2 powi (- 1022) \<le> (of_int a :: rat) / of_int b \<longrightarrow>
       \<bar>valof (Finite m e) - of_int a / of_int b\<bar> \<le> of_int a / of_int b / 2 ^ 53"
proof -
  from r assms(2) have rb: "round_binary64 a b = Finite m e"
    by (auto simp: true_div_def split: pyfloat.splits)
  show "0 \<le> m"
    and "valof (Finite m e) \<le> 2 * (of_int a / of_int b)"
    and "2 powi (- 1022) \<le> (of_int a :: rat) / of_int b \<longrightarrow>
       \<bar>valof (Finite m e) - of_int a / of_int b\<bar> \<le> of_int a / of_int b / 2 ^ 53"
    by (rule round_binary64_props [OF assms(1,2) rb])+
qed

lemma true_div_Inr:
  assumes "true_div a b = Inr f"
  obtains m e where "f = Finite m e"
proof (cases "round_binary64 (a * sgn b) \<bar>b\<bar>")
  case (Finite m e)
  with assms have "f = Finite m e" by (simp add: true_div_def split: if_splits)
  then show ?thesis by (rule that)
next
  case Infinity
  with assms show ?thesis by (simp add: true_div_def split: if_splits)
qed

lemma dict_item_padrao: "dict_item SECTOR_RATES ''PADRAO'' = Inr DEFAULT_RATES"
  by (simp add: dict_item_def SECTOR_RATES_def DEFAULT_RATES_def)

lemma close_to_865: "close_to (float_literal 865 10000) (173 / 2000)"
  by (simp add: float_literal_865)

lemma close_to_1115: "close_to (float_literal 1115 10000) (223 / 2000)"
  by (simp add: float_literal_1115)

lemma close_to_470: "close_to (float_literal 470 10000) (47 / 1000)"
  by (simp add: float_literal_470)

lemma close_to_433: "close_to (float_literal 433 10000) (433 / 10000)"
  by (simp add: float_literal_433)

lemma close_to_558: "close_to (float_literal 558 10000) (279 / 5000)"
  by (simp add: float_literal_558)

lemma close_to_235: "close_to (float_literal 235 10000) (47 / 2000)"
  by (simp add: float_literal_235)

lemma close_to_0: "close_to (float_literal 0 10) 0"
  by (simp add: float_literal_0)

lemmas close_to_literals =
  close_to_865 close_to_1115 close_to_470 close_to_433 close_to_558 close_to_235 close_to_0

lemma rates_good:
  "good_rates (dict_get SECTOR_RATES s DEFAULT_RATES) (decimal_rates s)"
  unfolding good_rates_def decimal_rates_def dict_get_def SECTOR_RATES_def SECTOR_DECIMALS_def
    DEFAULT_RATES_def
  by (simp add: close_to_literals)

lemma bound_rat:
  fixes g :: int
  assumes "g < int_float_limit"
  shows "(of_int g :: rat) < 2 ^ 1024 - 2 ^ 970"
proof -
  from assms have "(of_int g :: rat) < of_int (2 ^ 1024 - 2 ^ 970)"
    by (simp only: of_int_less_iff int_float_limit_def)
  then show ?thesis by simp
qed

lemma close_to_Finite:
  assumes "close_to f q"
  obtains m e where "f = Finite m e" "0 \<le> m" "0 \<le> q"
    "q * (1 - 1 / 2 ^ 53) \<le> valof f" "valof f \<le> q * (1 + 1 / 2 ^ 53)"
    "m = 0 \<longrightarrow> q = 0" "m \<noteq> 0 \<longrightarrow> 1 / 64 \<le> valof f"
proof (cases f)
  case (Finite m e)
  with assms have m: "0 \<le> m" and d: "\<bar>valof f - q\<bar> \<le> q / 2 ^ 53"
    and z: "m = 0 \<longrightarrow> q = 0" and nz: "m \<noteq> 0 \<longrightarrow> 1 / 64 \<le> valof f"
    by (simp_all split: if_splits)
  from d have "0 \<le> q / 2 ^ 53" by (rule order_trans [OF abs_ge_zero])
  then have q: "0 \<le> q" by simp
  from abs_le_D1 [OF d] abs_le_D2 [OF d]
  have "q * (1 - 1 / 2 ^ 53) \<le> valof f" "valof f \<le> q * (1 + 1 / 2 ^ 53)"
    by (simp_all add: algebra_simps)
  with Finite m q z nz show ?thesis by (intro that [of m e])
next
  case Infinity
  with assms show ?thesis by simp
qed

text \<open>One tax share: \<open>int(gross * rate)\<close> against the exact product with the decimal rate.\<close>

lemma share_props:
  assumes cl: "close_to f q" and g: "0 \<le> g" and res: "int_of_product g f = Inr i"
  shows "0 \<le> i"
    and "of_int i \<le> 4 * of_int g * q * (1 + 1 / 2 ^ 53)"
    and "\<bar>of_int i - of_int g * q\<bar> < 1 + of_int g * q / 2 ^ 51"
proof -
  obtain m e where f: "f = Finite m e" and m: "0 \<le> m" and q: "0 \<le> q"
    and Vlo: "q * (1 - 1 / 2 ^ 53) \<le> valof f" and Vup: "valof f \<le> q * (1 + 1 / 2 ^ 53)"
    and z: "m = 0 \<longrightarrow> q = 0" and nz: "m \<noteq> 0 \<longrightarrow> 1 / 64 \<le> valof f"
    using cl by (rule close_to_Finite)
  define a :: rat where "a = of_int g"
  define V where "V = valof f"
  define u :: rat where "u = 1 / 2 ^ 53"
  have a0: "0 \<le> a" using g by (simp add: a_def)
  note p = int_of_product_props [OF g m res [unfolded f], folded f]
  show i0: "0 \<le> i" by (rule p)
  have crude: "of_int i \<le> 4 * a * V" using p(2) by (simp add: a_def V_def)
  have "4 * a * V \<le> 4 * a * (q * (1 + u))"
    using Vup a0 unfolding V_def u_def by (intro mult_left_mono) simp_all
  with crude show "of_int i \<le> 4 * of_int g * q * (1 + 1 / 2 ^ 53)"
    by (simp add: a_def u_def mult.assoc)
  have aq: "0 \<le> a * q" using a0 q by simp
  have cube_up: "(1 + u) ^ 2 * (1 + u) \<le> 1 + 1 / 2 ^ 51"
    and cube_lo: "1 - 1 / 2 ^ 51 \<le> (1 - u) ^ 2 * (1 - u)"
    and u1: "0 \<le> 1 - u" "0 \<le> 1 + u"
    by (simp_all add: u_def power2_eq_square)
  show "\<bar>of_int i - of_int g * q\<bar> < 1 + of_int g * q / 2 ^ 51"
  proof (cases "m = 0 \<or> g = 0")
    case True
    then have "a * V = 0" using z Vup Vlo by (auto simp: a_def V_def f)
    with crude have "(of_int i :: rat) \<le> of_int 0" by (simp add: mult.assoc)
    then have "i \<le> 0" by (simp only: of_int_le_iff)
    with i0 have i: "i = 0" by simp
    from True z have e: "(of_int g :: rat) * q = 0" by auto
    show ?thesis unfolding e i by simp
  next
    case False
    with g nz have h: "1 \<le> g \<and> 1 / 64 \<le> valof f" by auto
    with p(3) have lo: "a * V * (1 - u) ^ 2 < of_int i + 1"
      and up: "of_int i \<le> a * V * (1 + u) ^ 2"
      by (simp_all add: a_def V_def u_def)
    have "a * V * (1 + u) ^ 2 \<le> a * (q * (1 + u)) * (1 + u) ^ 2"
      using Vup a0 unfolding V_def u_def
      by (intro mult_right_mono mult_left_mono) simp_all
    also have "\<dots> = (a * q) * ((1 + u) ^ 2 * (1 + u))" by (simp add: algebra_simps)
    also have "\<dots> \<le> (a * q) * (1 + 1 / 2 ^ 51)"
      using cube_up aq by (rule mult_left_mono)
    finally have A: "of_int i \<le> a * q + a * q / 2 ^ 51"
      using up by (simp add: algebra_simps)
    have "(a * q) * (1 - 1 / 2 ^ 51) \<le> (a * q) * ((1 - u) ^ 2 * (1 - u))"
      using cube_lo aq by (rule mult_left_mono)
    also have "\<dots> = a * (q * (1 - u)) * (1 - u) ^ 2" by (simp add: algebra_simps)
    also have "\<dots> \<le> a * V * (1 - u) ^ 2"
      using Vlo a0 unfolding V_def u_def
      by (intro mult_right_mono mult_left_mono) simp_all
    finally have B: "a * q - a * q / 2 ^ 51 < of_int i + 1"
      using lo by (simp add: algebra_simps)
    have "0 \<le> a * q / 2 ^ 51" using aq by simp
    with A B have "\<bar>of_int i - a * q\<bar> < 1 + a * q / 2 ^ 51"
      unfolding abs_less_iff by linarith
    then show ?thesis by (simp add: a_def)
  qed
qed

lemma share_finite:
  assumes cl: "close_to f q" and small: "q \<le> 49 / 200"
    and g: "0 \<le> g" and bound: "g < int_float_limit"
  obtains i where "int_of_product g f = Inr i"
proof -
  obtain m e where f: "f = Finite m e" and m: "0 \<le> m" and q: "0 \<le> q"
    and Vup: "valof f \<le> q * (1 + 1 / 2 ^ 53)"
    using cl by (rule close_to_Finite)
  have "q * (1 + 1 / 2 ^ 53) \<le> 49 / 200 * (1 + 1 / 2 ^ 53)"
    using small by (intro mult_right_mono) simp_all
  also have "\<dots> \<le> 1 / 4" by simp
  finally have "valof (Finite m e) \<le> 1 / 4" using Vup by (simp add: f)
  from int_of_product_finite [OF g bound_rat [OF bound] m this]
  show ?thesis using that by (auto simp: f)
qed

lemma rates_close:
  obtains a b d where "decimal_rates s = (a, b, d)"
    "close_to (CBS (dict_get SECTOR_RATES s DEFAULT_RATES)) a"
    "close_to (IBS_ESTADO (dict_get SECTOR_RATES s DEFAULT_RATES)) b"
    "close_to (IBS_MUNICIPIO (dict_get SECTOR_RATES s DEFAULT_RATES)) d"
    "a + b + d \<le> 49 / 200"
proof -
  obtain a b d where q: "decimal_rates s = (a, b, d)" by (cases "decimal_rates s")
  from rates_good [of s] show ?thesis
    unfolding q good_rates_def by (intro that [of a b d]) (simp_all add: q)
qed

lemma calculate_standard_Inr:
  assumes "calculate_standard g s c = Inr t"
  obtains i1 i2 i3 rate where
    "int_of_product g (CBS (dict_get SECTOR_RATES s DEFAULT_RATES)) = Inr i1"
    "int_of_product g (IBS_ESTADO (dict_get SECTOR_RATES s DEFAULT_RATES)) = Inr i2"
    "int_of_product g (IBS_MUNICIPIO (dict_get SECTOR_RATES s DEFAULT_RATES)) = Inr i3"
    "(if g > 0 then map_sum id PyFloat (true_div (i1 + i2 + i3) g) else Inr (PyInt 0)) = Inr rate"
    "t = \<lparr>standard_tax.gross_amount = g, cbs_amount = i1, ibs_state_amount = i2,
          ibs_city_amount = i3, total_tax = i1 + i2 + i3,
          credit_offset = min c (i1 + i2 + i3),
          net_tax = i1 + i2 + i3 - min c (i1 + i2 + i3),
          net_to_seller = g - (i1 + i2 + i3 - min c (i1 + i2 + i3)),
          effective_rate = rate, sector = s\<rparr>"
  using assms unfolding calculate_standard_def dict_item_padrao
  by (simp add: Let_def split: sum.splits)

lemma calculate_standard_InrI:
  assumes "int_of_product g (CBS (dict_get SECTOR_RATES s DEFAULT_RATES)) = Inr i1"
    "int_of_product g (IBS_ESTADO (dict_get SECTOR_RATES s DEFAULT_RATES)) = Inr i2"
    "int_of_product g (IBS_MUNICIPIO (dict_get SECTOR_RATES s DEFAULT_RATES)) = Inr i3"
    "(if g > 0 then map_sum id PyFloat (true_div (i1 + i2 + i3) g) else Inr (PyInt 0)) = Inr rate"
  shows "calculate_standard g s c =
     Inr \<lparr>standard_tax.gross_amount = g, cbs_amount = i1, ibs_state_amount = i2,
          ibs_city_amount = i3, total_tax = i1 + i2 + i3,
          credit_offset = min c (i1 + i2 + i3),
          net_tax = i1 + i2 + i3 - min c (i1 + i2 + i3),
          net_to_seller = g - (i1 + i2 + i3 - min c (i1 + i2 + i3)),
          effective_rate = rate, sector = s\<rparr>"
  using assms unfolding calculate_standard_def dict_item_padrao
  by (simp add: Let_def)

text \<open>The three shares of a non-negative amount are non-negative and sum to at most the
  amount.\<close>

lemma shares_sum:
  assumes g: "0 \<le> g"
    and 1: "int_of_product g (CBS (dict_get SECTOR_RATES s DEFAULT_RATES)) = Inr i1"
    and 2: "int_of_product g (IBS_ESTADO (dict_get SECTOR_RATES s DEFAULT_RATES)) = Inr i2"
    and 3: "int_of_product g (IBS_MUNICIPIO (dict_get SECTOR_RATES s DEFAULT_RATES)) = Inr i3"
  shows "0 \<le> i1" "0 \<le> i2" "0 \<le> i3" "i1 + i2 + i3 \<le> g"
proof -
  obtain a b d where ca: "close_to (CBS (dict_get SECTOR_RATES s DEFAULT_RATES)) a"
    and cb: "close_to (IBS_ESTADO (dict_get SECTOR_RATES s DEFAULT_RATES)) b"
    and cd: "close_to (IBS_MUNICIPIO (dict_get SECTOR_RATES s DEFAULT_RATES)) d"
    and sum: "a + b + d \<le> 49 / 200"
    using rates_close [of s] by metis
  define x :: rat where "x = of_int g"
  define w :: rat where "w = 1 + 1 / 2 ^ 53"
  have x0: "0 \<le> x" using g by (simp add: x_def)
  note p1 = share_props [OF ca g 1] and p2 = share_props [OF cb g 2]
    and p3 = share_props [OF cd g 3]
  show "0 \<le> i1" "0 \<le> i2" "0 \<le> i3" by (rule p1 p2 p3)+
  have "of_int (i1 + i2 + i3) \<le> 4 * x * a * w + 4 * x * b * w + 4 * x * d * w"
    using p1(2) p2(2) p3(2) by (simp add: x_def w_def)
  also have "\<dots> = (4 * x * w) * (a + b + d)" by (simp add: algebra_simps)
  also have "\<dots> \<le> (4 * x * w) * (49 / 200)"
    using sum x0 by (intro mult_left_mono) (simp_all add: w_def)
  also have "\<dots> = x * (4 * w * (49 / 200))" by simp
  also have "\<dots> \<le> x * 1"
    using x0 by (intro mult_left_mono) (simp_all add: w_def)
  finally have "(of_int (i1 + i2 + i3) :: rat) \<le> of_int g" by (simp add: x_def)
  then show "i1 + i2 + i3 \<le> g" by (simp only: of_int_le_iff)
qed

lemma calculate_standard_total:
  assumes g: "0 \<le> g" and bound: "g < int_float_limit"
  obtains t where "calculate_standard g s c = Inr t"
proof -
  obtain a b d where ca: "close_to (CBS (dict_get SECTOR_RATES s DEFAULT_RATES)) a"
    and cb: "close_to (IBS_ESTADO (dict_get SECTOR_RATES s DEFAULT_RATES)) b"
    and cd: "close_to (IBS_MUNICIPIO (dict_get SECTOR_RATES s DEFAULT_RATES)) d"
    and sum: "a + b + d \<le> 49 / 200"
    using rates_close [of s] by metis
  have a0: "0 \<le> a" and b0: "0 \<le> b" and d0: "0 \<le> d"
    using ca cb cd by (auto elim: close_to_Finite)
  with sum have small: "a \<le> 49 / 200" "b \<le> 49 / 200" "d \<le> 49 / 200" by simp_all
  obtain i1 where 1: "int_of_product g (CBS (dict_get SECTOR_RATES s DEFAULT_RATES)) = Inr i1"
    using share_finite [OF ca small(1) g bound] by blast
  obtain i2 where 2: "int_of_product g (IBS_ESTADO (dict_get SECTOR_RATES s DEFAULT_RATES)) = Inr i2"
    using share_finite [OF cb small(2) g bound] by blast
  obtain i3 where 3: "int_of_product g (IBS_MUNICIPIO (dict_get SECTOR_RATES s DEFAULT_RATES)) = Inr i3"
    using share_finite [OF cd small(3) g bound] by blast
  note ss = shares_sum [OF g 1 2 3]
  obtain rate where r: "(if g > 0 then map_sum id PyFloat (true_div (i1 + i2 + i3) g)
      else Inr (PyInt 0)) = Inr rate"
  proof (cases "g > 0")
    case True
    have t0: "0 \<le> i1 + i2 + i3" using ss by simp
    have "(of_int (i1 + i2 + i3) :: rat) \<le> of_int g" using ss(4) by (simp only: of_int_le_iff)
    then have "(of_int (i1 + i2 + i3) :: rat) / of_int g \<le> 1" using True by simp
    moreover have "(1::rat) < 2 ^ 1024 - 2 ^ 970" by simp
    ultimately have "(of_int (i1 + i2 + i3) :: rat) / of_int g < 2 ^ 1024 - 2 ^ 970"
      by (rule le_less_trans)
    from true_div_finite [OF t0 True this] obtain m e
      where "true_div (i1 + i2 + i3) g = Inr (Finite m e)" by blast
    then show ?thesis using True by (intro that [of "PyFloat (Finite m e)"]) simp
  next
    case False
    then show ?thesis by (intro that [of "PyInt 0"]) simp
  qed
  from calculate_standard_InrI [OF 1 2 3 r, of c] show ?thesis by (rule that)
qed

section \<open>calculate_simplified\<close>

lemma bps_cases:
  "dict_get SIMPLIFIED_RATES_BPS s 2650 \<in> {2650, 1325, 0}"
  by (simp add: dict_get_def SIMPLIFIED_RATES_BPS_def)

lemma calculate_simplified_Inr:
  assumes "calculate_simplified g s = Inr t"
  obtains ratio tax rate where
    "true_div (g * dict_get SIMPLIFIED_RATES_BPS s 2650) 10000 = Inr ratio"
    "py_int ratio = Inr tax"
    "true_div (dict_get SIMPLIFIED_RATES_BPS s 2650) 10000 = Inr rate"
    "t = \<lparr>simplified_tax.gross_amount = g, rate_bps = dict_get SIMPLIFIED_RATES_BPS s 2650,
          tax_amount = tax, net_to_seller = g - tax,
          effective_rate = PyFloat rate, sector = s\<rparr>"
  using assms unfolding calculate_simplified_def
  by (simp add: Let_def split: sum.splits)

lemma calculate_simplified_total:
  assumes g: "0 \<le> g" and bound: "g < int_float_limit"
  obtains t where "calculate_simplified g s = Inr t"
proof -
  define bps where "bps = dict_get SIMPLIFIED_RATES_BPS s 2650"
  have bps: "0 \<le> bps" "bps \<le> 10000" using bps_cases [of s] by (auto simp: bps_def)
  have n0: "0 \<le> g * bps" using g bps by simp
  have "(of_int (g * bps) :: rat) / of_int 10000 = of_int g * (of_int bps / 10000)" by simp
  also have "\<dots> \<le> of_int g * 1"
    using g bps by (intro mult_left_mono) simp_all
  finally have "(of_int (g * bps) :: rat) / of_int 10000 < 2 ^ 1024 - 2 ^ 970"
    using bound_rat [OF bound] by simp
  from true_div_finite [OF n0 _ this] obtain m e
    where td: "true_div (g * bps) 10000 = Inr (Finite m e)" by auto
  have "(of_int bps :: rat) / of_int 10000 \<le> 1" using bps by simp
  moreover have "(1::rat) < 2 ^ 1024 - 2 ^ 970" by simp
  ultimately have "(of_int bps :: rat) / of_int 10000 < 2 ^ 1024 - 2 ^ 970"
    by (rule le_less_trans)
  from true_div_finite [OF bps(1) _ this] obtain m' e'
    where tr: "true_div bps 10000 = Inr (Finite m' e')" by auto
  show ?thesis
    by (rule that) (simp add: calculate_simplified_def bps_def [symmetric] td tr Let_def)
qed

lemma calculate_standard_returns:
  assumes "0 \<le> g" "g < int_float_limit"
  shows "\<exists>t. calculate_standard g s c = Inr t"
proof -
  obtain t where "calculate_standard g s c = Inr t"
    by (rule calculate_standard_total [OF assms])
  then show ?thesis ..
qed

lemma calculate_simplified_returns:
  assumes "0 \<le> g" "g < int_float_limit"
  shows "\<exists>t. calculate_simplified g s = Inr t"
proof -
  obtain t where "calculate_simplified g s = Inr t"
    by (rule calculate_simplified_total [OF assms])
  then show ?thesis ..
qed

section \<open>Claims about the tax engine\<close>

text \<open>
  C3. For every non-negative \<open>gross_amount\<close>, sector and \<open>seller_credits\<close>,
  \<open>calculate_standard\<close> returns \<open>credit_offset = min(seller_credits, total_tax)\<close>: the
  offset never exceeds the tax, and it equals \<open>total_tax\<close> exactly whenever
  \<open>seller_credits \<ge> total_tax\<close>. Every returned dictionary satisfies this, and a
  dictionary is returned for every non-negative amount that converts to a float
  (below \<open>2 ^ 1024 - 2 ^ 970\<close>).
\<close>

theorem credit_offset_is_min:
  "(0 \<le> g \<and> g < int_float_limit \<longrightarrow> (\<exists>t. calculate_standard g s c = Inr t)) \<and>
   (\<forall>t. calculate_standard g s c = Inr t \<longrightarrow>
      credit_offset t = min c (total_tax t) \<and>
      credit_offset t \<le> total_tax t \<and>
      (total_tax t \<le> c \<longrightarrow> credit_offset t = total_tax t))"
proof (intro conjI impI allI)
  assume "0 \<le> g \<and> g < int_float_limit"
  then show "\<exists>t. calculate_standard g s c = Inr t"
    by (elim conjE) (rule calculate_standard_returns)
next
  fix t assume "calculate_standard g s c = Inr t"
  then obtain i1 i2 i3 rate where
    "t = \<lparr>standard_tax.gross_amount = g, cbs_amount = i1, ibs_state_amount = i2,
          ibs_city_amount = i3, total_tax = i1 + i2 + i3,
          credit_offset = min c (i1 + i2 + i3),
          net_tax = i1 + i2 + i3 - min c (i1 + i2 + i3),
          net_to_seller = g - (i1 + i2 + i3 - min c (i1 + i2 + i3)),
          effective_rate = rate, sector = s\<rparr>"
    by (rule calculate_standard_Inr)
  then have t: "credit_offset t = min c (total_tax t)" by simp
  show "credit_offset t = min c (total_tax t)" by (rule t)
  show "credit_offset t \<le> total_tax t" unfolding t by simp
  { assume "total_tax t \<le> c" then show "credit_offset t = total_tax t" unfolding t by simp }
qed

lemma credit_eval:
  "map_sum id (\<lambda>t. (total_tax t, credit_offset t))
     (calculate_standard (10 ^ 18) ''PADRAO'' (10 * 245000000000000000))
   = Inr (245000000000000000, 245000000000000000)"
  by code_simp

theorem credit_offset_is_min_witness:
  "(0::int) \<le> 10 ^ 18 \<and> (10::int) ^ 18 < int_float_limit \<and>
   (\<exists>t. calculate_standard (10 ^ 18) ''PADRAO'' (10 * 245000000000000000) = Inr t \<and>
        total_tax t = 245000000000000000 \<and> total_tax t \<le> 10 * 245000000000000000 \<and>
        credit_offset t = total_tax t)"
proof -
  have r: "(0::int) \<le> 10 ^ 18 \<and> (10::int) ^ 18 < int_float_limit" by (simp add: int_float_limit_def)
  note th = credit_offset_is_min [of "10 ^ 18" "''PADRAO''" "10 * 245000000000000000"]
  from th [THEN conjunct1, rule_format, OF r]
  obtain t where t: "calculate_standard (10 ^ 18) ''PADRAO'' (10 * 245000000000000000) = Inr t" ..
  from th [THEN conjunct2, rule_format, OF t]
  have m: "total_tax t \<le> 10 * 245000000000000000 \<longrightarrow> credit_offset t = total_tax t"
    by (elim conjE)
  from credit_eval t have e: "total_tax t = 245000000000000000" by simp
  then have le: "total_tax t \<le> 10 * 245000000000000000" by simp
  with m have "credit_offset t = total_tax t" ..
  with t e le have "calculate_standard (10 ^ 18) ''PADRAO'' (10 * 245000000000000000) = Inr t \<and>
        total_tax t = 245000000000000000 \<and> total_tax t \<le> 10 * 245000000000000000 \<and>
        credit_offset t = total_tax t" by (intro conjI)
  then have "\<exists>t. calculate_standard (10 ^ 18) ''PADRAO'' (10 * 245000000000000000) = Inr t \<and>
        total_tax t = 245000000000000000 \<and> total_tax t \<le> 10 * 245000000000000000 \<and>
        credit_offset t = total_tax t" ..
  with r show ?thesis by (intro conjI) (elim conjE, assumption)+
qed

text \<open>
  C6. For every non-negative \<open>gross_amount\<close>, every sector and every non-negative
  \<open>seller_credits\<close>, the result of \<open>calculate_standard\<close> satisfies
  \<open>credit_offset \<le> total_tax\<close>, \<open>credit_offset \<le> seller_credits\<close>,
  \<open>net_tax \<le> total_tax \<le> gross_amount\<close> and
  \<open>net_to_seller = gross_amount - net_tax \<ge> 0\<close>. Every returned dictionary satisfies
  this, and a dictionary is returned for every amount below \<open>2 ^ 1024 - 2 ^ 970\<close>.
\<close>

theorem standard_invariants:
  assumes g: "0 \<le> g" and c: "0 \<le> c"
  shows "(g < int_float_limit \<longrightarrow> (\<exists>t. calculate_standard g s c = Inr t)) \<and>
    (\<forall>t. calculate_standard g s c = Inr t \<longrightarrow>
       credit_offset t \<le> total_tax t \<and>
       credit_offset t \<le> c \<and>
       net_tax t \<le> total_tax t \<and>
       total_tax t \<le> g \<and>
       standard_tax.net_to_seller t = g - net_tax t \<and>
       0 \<le> standard_tax.net_to_seller t)"
proof (intro conjI impI allI)
  assume "g < int_float_limit"
  with g show "\<exists>t. calculate_standard g s c = Inr t"
    by (rule calculate_standard_returns)
next
  fix t assume "calculate_standard g s c = Inr t"
  then obtain i1 i2 i3 rate where
    1: "int_of_product g (CBS (dict_get SECTOR_RATES s DEFAULT_RATES)) = Inr i1" and
    2: "int_of_product g (IBS_ESTADO (dict_get SECTOR_RATES s DEFAULT_RATES)) = Inr i2" and
    3: "int_of_product g (IBS_MUNICIPIO (dict_get SECTOR_RATES s DEFAULT_RATES)) = Inr i3" and
    t: "t = \<lparr>standard_tax.gross_amount = g, cbs_amount = i1, ibs_state_amount = i2,
          ibs_city_amount = i3, total_tax = i1 + i2 + i3,
          credit_offset = min c (i1 + i2 + i3),
          net_tax = i1 + i2 + i3 - min c (i1 + i2 + i3),
          net_to_seller = g - (i1 + i2 + i3 - min c (i1 + i2 + i3)),
          effective_rate = rate, sector = s\<rparr>"
    by (rule calculate_standard_Inr)
  note ss = shares_sum [OF g 1 2 3]
  define total where "total = i1 + i2 + i3"
  have total: "0 \<le> total" "total \<le> g" using ss by (simp_all add: total_def)
  have f: "total_tax t = total" "credit_offset t = min c total"
    "net_tax t = total - min c total"
    "standard_tax.net_to_seller t = g - (total - min c total)"
    by (simp_all add: t total_def)
  show "credit_offset t \<le> total_tax t" by (simp add: f)
  show "credit_offset t \<le> c" by (simp add: f)
  show "net_tax t \<le> total_tax t" using c total by (simp add: f)
  show "total_tax t \<le> g" using total by (simp add: f)
  show "standard_tax.net_to_seller t = g - net_tax t" by (simp add: f)
  show "0 \<le> standard_tax.net_to_seller t" using c total by (simp add: f)
qed

lemma invariants_eval:
  "map_sum id (\<lambda>t. (total_tax t, credit_offset t, net_tax t, standard_tax.net_to_seller t))
     (calculate_standard (1000 * 10 ^ 18) ''SAUDE'' 5)
   = Inr (122600000000000000000, 5, 122599999999999999995, 877400000000000000005)"
  by code_simp

theorem standard_invariants_witness:
  "(0::int) \<le> 1000 * 10 ^ 18 \<and> (0::int) \<le> 5 \<and> (1000::int) * 10 ^ 18 < int_float_limit \<and>
   (\<exists>t. calculate_standard (1000 * 10 ^ 18) ''SAUDE'' 5 = Inr t \<and>
        total_tax t = 122600000000000000000 \<and> credit_offset t = 5 \<and>
        total_tax t \<le> 1000 * 10 ^ 18 \<and> 0 \<le> standard_tax.net_to_seller t)"
proof -
  have r: "(0::int) \<le> 1000 * 10 ^ 18" "(0::int) \<le> 5"
    "(1000::int) * 10 ^ 18 < int_float_limit" by (simp_all add: int_float_limit_def)
  note th = standard_invariants [OF r(1,2), of "''SAUDE''"]
  from th [THEN conjunct1, rule_format, OF r(3)]
  obtain t where t: "calculate_standard (1000 * 10 ^ 18) ''SAUDE'' 5 = Inr t" ..
  from th [THEN conjunct2, rule_format, OF t]
  have i: "total_tax t \<le> 1000 * 10 ^ 18" "0 \<le> standard_tax.net_to_seller t"
    by simp_all
  from invariants_eval t have e: "total_tax t = 122600000000000000000" "credit_offset t = 5"
    by simp_all
  from t e i have "calculate_standard (1000 * 10 ^ 18) ''SAUDE'' 5 = Inr t \<and>
        total_tax t = 122600000000000000000 \<and> credit_offset t = 5 \<and>
        total_tax t \<le> 1000 * 10 ^ 18 \<and> 0 \<le> standard_tax.net_to_seller t"
    by (intro conjI)
  then have "\<exists>t. calculate_standard (1000 * 10 ^ 18) ''SAUDE'' 5 = Inr t \<and>
        total_tax t = 122600000000000000000 \<and> credit_offset t = 5 \<and>
        total_tax t \<le> 1000 * 10 ^ 18 \<and> 0 \<le> standard_tax.net_to_seller t" ..
  with r show ?thesis by (intro conjI)
qed

text \<open>
  C10. For every input sector string, including unknown ones that fall back to the
  \<open>PADRAO\<close> rates, the dictionaries returned by \<open>calculate_standard\<close> and
  \<open>calculate_simplified\<close> carry the caller's sector string verbatim and echo
  \<open>gross_amount\<close> unchanged; both return a dictionary for every non-negative amount below
  \<open>2 ^ 1024 - 2 ^ 970\<close>.
\<close>

theorem sector_and_gross_echoed:
  "(0 \<le> g \<and> g < int_float_limit \<longrightarrow>
      (\<exists>t. calculate_standard g s c = Inr t) \<and> (\<exists>t. calculate_simplified g s = Inr t)) \<and>
   (\<forall>t. calculate_standard g s c = Inr t \<longrightarrow>
      standard_tax.sector t = s \<and> standard_tax.gross_amount t = g) \<and>
   (\<forall>t. calculate_simplified g s = Inr t \<longrightarrow>
      simplified_tax.sector t = s \<and> simplified_tax.gross_amount t = g)"
proof (intro conjI impI allI)
  assume a: "0 \<le> g \<and> g < int_float_limit"
  then show "\<exists>t. calculate_standard g s c = Inr t"
    by (elim conjE) (rule calculate_standard_returns)
  from a show "\<exists>t. calculate_simplified g s = Inr t"
    by (elim conjE) (rule calculate_simplified_returns)
next
  fix t assume "calculate_standard g s c = Inr t"
  then obtain i1 i2 i3 rate where
    "t = \<lparr>standard_tax.gross_amount = g, cbs_amount = i1, ibs_state_amount = i2,
          ibs_city_amount = i3, total_tax = i1 + i2 + i3,
          credit_offset = min c (i1 + i2 + i3),
          net_tax = i1 + i2 + i3 - min c (i1 + i2 + i3),
          net_to_seller = g - (i1 + i2 + i3 - min c (i1 + i2 + i3)),
          effective_rate = rate, sector = s\<rparr>"
    by (rule calculate_standard_Inr)
  then show "standard_tax.sector t = s" "standard_tax.gross_amount t = g"
    by simp_all
next
  fix t assume "calculate_simplified g s = Inr t"
  then obtain tax rate where
    "t = \<lparr>simplified_tax.gross_amount = g, rate_bps = dict_get SIMPLIFIED_RATES_BPS s 2650,
          tax_amount = tax, net_to_seller = g - tax,
          effective_rate = PyFloat rate, sector = s\<rparr>"
    by (rule calculate_simplified_Inr)
  then show "simplified_tax.sector t = s" "simplified_tax.gross_amount t = g"
    by simp_all
qed

theorem sector_and_gross_echoed_witness:
  "(0::int) \<le> 5 \<and> (5::int) < int_float_limit \<and>
   (\<exists>t. calculate_standard 5 ''LUXO'' 0 = Inr t \<and>
        standard_tax.sector t = ''LUXO'' \<and> standard_tax.gross_amount t = 5) \<and>
   (\<exists>t. calculate_simplified 5 ''LUXO'' = Inr t \<and>
        simplified_tax.sector t = ''LUXO'' \<and> simplified_tax.gross_amount t = 5)"
proof -
  have r: "(0::int) \<le> 5 \<and> (5::int) < int_float_limit" by (simp add: int_float_limit_def)
  note th = sector_and_gross_echoed [of 5 "''LUXO''" 0]
  from th [THEN conjunct1, rule_format, OF r]
  obtain t u where t: "calculate_standard 5 ''LUXO'' 0 = Inr t"
    and u: "calculate_simplified 5 ''LUXO'' = Inr u"
    by (elim conjE exE)
  from th [THEN conjunct2, THEN conjunct1, rule_format, OF t]
  have "calculate_standard 5 ''LUXO'' 0 = Inr t \<and>
        standard_tax.sector t = ''LUXO'' \<and> standard_tax.gross_amount t = 5"
    using t by (intro conjI) (elim conjE, assumption)+
  then have A: "\<exists>t. calculate_standard 5 ''LUXO'' 0 = Inr t \<and>
        standard_tax.sector t = ''LUXO'' \<and> standard_tax.gross_amount t = 5" ..
  from th [THEN conjunct2, THEN conjunct2, rule_format, OF u]
  have "calculate_simplified 5 ''LUXO'' = Inr u \<and>
        simplified_tax.sector u = ''LUXO'' \<and> simplified_tax.gross_amount u = 5"
    using u by (intro conjI) (elim conjE, assumption)+
  then have B: "\<exists>t. calculate_simplified 5 ''LUXO'' = Inr t \<and>
        simplified_tax.sector t = ''LUXO'' \<and> simplified_tax.gross_amount t = 5" ..
  from r A B show ?thesis by (intro conjI) (elim conjE, assumption)+
qed

end
